theory Spec2Isabelle
  imports Main "HOL-Library.Word"
begin

unbundle bit_operations_syntax

section \<open>Data model of map.c\<close>

text \<open>
  A C string is read from a \<^verbatim>\<open>const char *\<close>: the bytes at the pointer up to, and not
  including, the first NUL byte. A key argument is modelled as the list of bytes found at
  the pointer; \<open>cstr\<close> is the string it denotes. A list without a NUL byte is taken to be
  terminated right after its last byte.
\<close>

type_synonym byte = "8 word"

definition cstr :: "byte list \<Rightarrow> byte list" where
  "cstr s = takeWhile (\<lambda>c. c \<noteq> 0) s"

text \<open>\<^verbatim>\<open>strcmp(a, b) == 0\<close>: the two strings agree byte for byte up to their terminators.\<close>

definition strcmp_eq :: "byte list \<Rightarrow> byte list \<Rightarrow> bool" where
  "strcmp_eq a b \<longleftrightarrow> cstr a = cstr b"

text \<open>
  \<^verbatim>\<open>struct cell { struct cell *next; void *value; char key[]; }\<close>.
  A bucket's chain of cells linked through \<^verbatim>\<open>next\<close> is a list of cells, head first;
  the \<^verbatim>\<open>NULL\<close> chain is the empty list. The value handle is opaque (\<^verbatim>\<open>void *\<close>), hence
  a type parameter. The field \<^verbatim>\<open>value\<close> is called \<open>val\<close> here.
\<close>

record 'v cell =
  key :: "byte list"
  val :: "'v"

text \<open>
  \<^verbatim>\<open>struct map { struct cell **elems; int capacity; int size; }\<close>.
  The field \<^verbatim>\<open>size\<close> is called \<open>size_m\<close> here.
\<close>

record 'v map_t =
  elems :: "'v cell list list"
  capacity :: int
  size_m :: int

text \<open>
  The ways a call can fail to return: the \<^verbatim>\<open>assert(key_found); exit(1);\<close> of
  \<^verbatim>\<open>map_get\<close> and \<^verbatim>\<open>map_remove\<close>, and the signed overflow of
  \<^verbatim>\<open>m->capacity *= 2\<close> in \<^verbatim>\<open>extend_if_necessary\<close>, which C leaves undefined.
  Allocation is assumed to succeed. The counter \<^verbatim>\<open>size\<close> and the capacity are of type
  \<open>int\<close>; on a well-formed table (\<open>invar\<close> below) both lie between 0 and \<open>2 ^ 30\<close>, so
  that \<^verbatim>\<open>m->size += 1\<close> and \<^verbatim>\<open>m->size -= 1\<close> stay in the range of \<^verbatim>\<open>int\<close>.
\<close>

datatype error = KeyNotFound | IntOverflow

definition INT_MAX :: int where
  "INT_MAX = 2 ^ 31 - 1"

section \<open>The hash function\<close>

text \<open>
  \<^verbatim>\<open>unsigned int hash = -1; while (*key) { hash *= 31; hash ^= (unsigned char) *key; key += 1; }\<close>
  on a 32-bit \<^verbatim>\<open>unsigned int\<close>.
\<close>

fun hash_loop :: "32 word \<Rightarrow> byte list \<Rightarrow> 32 word" where
  "hash_loop h [] = h"
| "hash_loop h (c # cs) = (if c = 0 then h else hash_loop ((h * 31) XOR ucast c) cs)"

definition hash :: "byte list \<Rightarrow> 32 word" where
  "hash k = hash_loop (- 1) k"

text \<open>
  \<^verbatim>\<open>hash(key) % m->capacity\<close>: the \<^verbatim>\<open>int\<close> capacity is converted to
  \<^verbatim>\<open>unsigned int\<close> and the remainder is unsigned. On a well-formed table the capacity
  is positive, the remainder is below it and indexes a bucket of the array
  (\<open>slot_less\<close>, \<open>invar_slot_less\<close> below).
\<close>

definition slot :: "int \<Rightarrow> byte list \<Rightarrow> nat" where
  "slot cap k = unat (hash k mod (word_of_int cap :: 32 word))"

text \<open>
  The hash as the specification words it: a left fold over the bytes before the
  terminator, on natural numbers, reduced modulo \<open>2 ^ 32\<close> at every step.
\<close>

definition spec_hash_step :: "nat \<Rightarrow> byte \<Rightarrow> nat" where
  "spec_hash_step h b = ((h * 31) XOR unat b) mod 2 ^ 32"

definition spec_hash :: "byte list \<Rightarrow> nat" where
  "spec_hash k = foldl spec_hash_step (2 ^ 32 - 1) (cstr k)"

section \<open>Lookup\<close>

text \<open>
  \<^verbatim>\<open>map_create\<close>: one bucket, zeroed by \<^verbatim>\<open>calloc\<close>, capacity 1, size 0. The header
  is taken to hold its three fields, although the source allocates
  \<^verbatim>\<open>sizeof (map)\<close>, the size of the pointer type, for it.
\<close>

definition map_create :: "'v map_t" where
  "map_create = \<lparr>elems = [[]], capacity = 1, size_m = 0\<rparr>"

definition map_size :: "'v map_t \<Rightarrow> int" where
  "map_size m = size_m m"

text \<open>
  The loop of \<^verbatim>\<open>map_contains\<close> over one chain:
  \<^verbatim>\<open>for (curr = m->elems[b]; curr != NULL; curr = curr->next) if (strcmp(curr->key, key) == 0) return true;\<close>
\<close>

fun chain_contains :: "'v cell list \<Rightarrow> byte list \<Rightarrow> bool" where
  "chain_contains [] k = False"
| "chain_contains (c # cs) k =
     (if strcmp_eq (key c) k then True else chain_contains cs k)"

definition map_contains :: "'v map_t \<Rightarrow> byte list \<Rightarrow> bool" where
  "map_contains m k = (let b = slot (capacity m) k in chain_contains (elems m ! b) k)"

text \<open>
  The loop of \<^verbatim>\<open>map_get\<close>; \<open>None\<close> when the chain ends without a match, where the
  source falls through to \<^verbatim>\<open>assert(key_found); exit(1);\<close>.
\<close>

fun chain_get :: "'v cell list \<Rightarrow> byte list \<Rightarrow> 'v option" where
  "chain_get [] k = None"
| "chain_get (c # cs) k =
     (if strcmp_eq (key c) k then Some (val c) else chain_get cs k)"

definition map_get :: "'v map_t \<Rightarrow> byte list \<Rightarrow> error + 'v" where
  "map_get m k =
     (let b = slot (capacity m) k
      in case chain_get (elems m ! b) k of
           Some v \<Rightarrow> Inr v
         | None \<Rightarrow> Inl KeyNotFound)"

section \<open>Growth\<close>

text \<open>
  The inner loop of \<^verbatim>\<open>extend_if_necessary\<close>: each cell of an old chain, from its head
  on, is pushed on the front of its bucket in the new array:
  \<^verbatim>\<open>b = hash(curr->key) % m->capacity; curr->next = m->elems[b]; m->elems[b] = curr;\<close>
\<close>

fun move_chain :: "int \<Rightarrow> 'v cell list \<Rightarrow> 'v cell list list \<Rightarrow> 'v cell list list" where
  "move_chain cap [] new = new"
| "move_chain cap (c # cs) new =
     (let b = slot cap (key c)
      in move_chain cap cs (new[b := c # new ! b]))"

text \<open>The outer loop, \<^verbatim>\<open>for (int i = 0; i < capacity; i += 1)\<close>, over the old array.\<close>

definition move_all :: "int \<Rightarrow> int \<Rightarrow> 'v cell list list \<Rightarrow> 'v cell list list \<Rightarrow> 'v cell list list" where
  "move_all old_cap cap old new =
     fold (\<lambda>i acc. move_chain cap (old ! i) acc) [0..<nat old_cap] new"

text \<open>
  \<^verbatim>\<open>extend_if_necessary\<close>: when \<^verbatim>\<open>size == capacity\<close> the capacity is doubled, a zeroed
  array of the new capacity is allocated and every cell is moved into it. Doubling a
  capacity above \<open>INT_MAX div 2\<close> overflows \<^verbatim>\<open>int\<close>; the model stops there.
\<close>

definition extend_if_necessary :: "'v map_t \<Rightarrow> error + 'v map_t" where
  "extend_if_necessary m =
     (if size_m m = capacity m then
        (let old_cap = capacity m; old = elems m
         in if 2 * old_cap > INT_MAX then Inl IntOverflow
            else Inr (m\<lparr>capacity := 2 * old_cap,
                        elems := move_all old_cap (2 * old_cap) old
                                   (replicate (nat (2 * old_cap)) [])\<rparr>))
      else Inr m)"

section \<open>Insertion and removal\<close>

text \<open>
  The first loop of \<^verbatim>\<open>map_set\<close>: the first cell whose key matches gets the new value
  (\<^verbatim>\<open>curr->value = value; return;\<close>); \<open>None\<close> when no cell matches.
\<close>

fun chain_set :: "'v cell list \<Rightarrow> byte list \<Rightarrow> 'v \<Rightarrow> 'v cell list option" where
  "chain_set [] k v = None"
| "chain_set (c # cs) k v =
     (if strcmp_eq (key c) k then Some (c\<lparr>val := v\<rparr> # cs)
      else (case chain_set cs k v of
              None \<Rightarrow> None
            | Some cs' \<Rightarrow> Some (c # cs')))"

text \<open>
  \<^verbatim>\<open>map_set\<close>. For a new key: grow if necessary, recompute the bucket, and link a new
  cell, holding a copy of the key string (\<^verbatim>\<open>strcpy\<close>), at the head of the chain.
\<close>

definition map_set :: "'v map_t \<Rightarrow> byte list \<Rightarrow> 'v \<Rightarrow> error + 'v map_t" where
  "map_set m k v =
     (let b = slot (capacity m) k
      in case chain_set (elems m ! b) k v of
           Some ch \<Rightarrow> Inr (m\<lparr>elems := (elems m)[b := ch]\<rparr>)
         | None \<Rightarrow>
             (case extend_if_necessary m of
                Inl e \<Rightarrow> Inl e
              | Inr m1 \<Rightarrow>
                  (let b1 = slot (capacity m1) k;
                       new = \<lparr>key = cstr k, val = v\<rparr>
                   in Inr (m1\<lparr>elems := (elems m1)[b1 := new # elems m1 ! b1],
                                size_m := size_m m1 + 1\<rparr>))))"

text \<open>
  The loop of \<^verbatim>\<open>map_remove\<close>: the first matching cell is unlinked and its value
  returned with the remaining chain; \<open>None\<close> when no cell matches.
\<close>

fun chain_remove :: "'v cell list \<Rightarrow> byte list \<Rightarrow> ('v \<times> 'v cell list) option" where
  "chain_remove [] k = None"
| "chain_remove (c # cs) k =
     (if strcmp_eq (key c) k then Some (val c, cs)
      else (case chain_remove cs k of
              None \<Rightarrow> None
            | Some (v, cs') \<Rightarrow> Some (v, c # cs')))"

text \<open>
  \<^verbatim>\<open>map_remove\<close> returns the outcome together with the table as the call leaves it.
\<close>

definition map_remove :: "'v map_t \<Rightarrow> byte list \<Rightarrow> (error + 'v) \<times> 'v map_t" where
  "map_remove m k =
     (let b = slot (capacity m) k
      in case chain_remove (elems m ! b) k of
           Some (v, ch) \<Rightarrow>
             (Inr v, m\<lparr>elems := (elems m)[b := ch], size_m := size_m m - 1\<rparr>)
         | None \<Rightarrow> (Inl KeyNotFound, m))"

section \<open>Iteration\<close>

text \<open>
  \<^verbatim>\<open>map_first\<close> and \<^verbatim>\<open>map_next\<close> return a pointer to the \<^verbatim>\<open>key\<close> field of a cell, or
  \<^verbatim>\<open>NULL\<close>; \<^verbatim>\<open>map_next\<close> gets the cell back from such a pointer
  (\<^verbatim>\<open>key - sizeof (struct cell)\<close>). A key pointer is therefore a reference to a cell, and
  is modelled by the cell's place: the bucket index and the position in the chain.
  \<open>key_at\<close> reads the string at the pointer.
\<close>

type_synonym cursor = "nat \<times> nat"

definition key_at :: "'v map_t \<Rightarrow> cursor \<Rightarrow> byte list" where
  "key_at m c = key (elems m ! fst c ! snd c)"

text \<open>
  \<^verbatim>\<open>for (i = s; i < m->capacity; i += 1) if (m->elems[i] != NULL) return m->elems[i]->key; return NULL;\<close>
\<close>

definition scan_from :: "'v map_t \<Rightarrow> nat \<Rightarrow> cursor option" where
  "scan_from m s =
     (case find (\<lambda>i. elems m ! i \<noteq> []) [s..<nat (capacity m)] of
        None \<Rightarrow> None
      | Some i \<Rightarrow> Some (i, 0))"

definition map_first :: "'v map_t \<Rightarrow> cursor option" where
  "map_first m = scan_from m 0"

text \<open>
  \<^verbatim>\<open>map_next\<close>: the successor in the chain if there is one; otherwise the scan resumes
  after the bucket computed from the hash of the key.
\<close>

definition map_next :: "'v map_t \<Rightarrow> cursor \<Rightarrow> cursor option" where
  "map_next m c =
     (if Suc (snd c) < length (elems m ! fst c) then Some (fst c, Suc (snd c))
      else (let b = slot (capacity m) (key_at m c) in scan_from m (b + 1)))"

text \<open>
  The iteration of map.h,
  \<^verbatim>\<open>for (key = map_first(m); key != NULL; key = map_next(m, key))\<close>,
  collecting the keys it visits. The loop is bounded by fuel: \<open>None\<close> means that the
  fuel ran out before \<^verbatim>\<open>NULL\<close> was reached.
\<close>

fun walk_from :: "nat \<Rightarrow> 'v map_t \<Rightarrow> cursor option \<Rightarrow> byte list list option" where
  "walk_from fuel m None = Some []"
| "walk_from 0 m (Some c) = None"
| "walk_from (Suc fuel) m (Some c) =
     (case walk_from fuel m (map_next m c) of
        None \<Rightarrow> None
      | Some ks \<Rightarrow> Some (key_at m c # ks))"

definition walk :: "nat \<Rightarrow> 'v map_t \<Rightarrow> byte list list option" where
  "walk fuel m = walk_from fuel m (map_first m)"

section \<open>Well-formed tables\<close>

text \<open>
  A chain is in order for bucket \<open>i\<close> of a table of capacity \<open>cap\<close> when its keys are
  pairwise different, hash to \<open>i\<close>, and are NUL-free strings.
\<close>

definition bucket_ok :: "int \<Rightarrow> nat \<Rightarrow> 'v cell list \<Rightarrow> bool" where
  "bucket_ok cap i ch \<longleftrightarrow>
     distinct (map key ch) \<and> (\<forall>c \<in> set ch. slot cap (key c) = i \<and> cstr (key c) = key c)"

text \<open>
  The tables the operations are meant for: the capacity is a power of two that fits an
  \<^verbatim>\<open>int\<close>, the array has \<open>capacity\<close> buckets, \<open>size\<close> counts the cells and does not
  exceed the capacity, and every chain is in order.
\<close>

definition invar :: "'v map_t \<Rightarrow> bool" where
  "invar m \<longleftrightarrow>
     capacity m \<in> set (map (\<lambda>n. 2 ^ n) [0..<31]) \<and>
     length (elems m) = nat (capacity m) \<and>
     size_m m = int (length (concat (elems m))) \<and>
     size_m m \<le> capacity m \<and>
     (\<forall>i \<in> {0..<length (elems m)}. bucket_ok (capacity m) i (elems m ! i))"

text \<open>The tables a client can build: from \<^verbatim>\<open>map_create\<close> by calls that return.\<close>

inductive reachable :: "'v map_t \<Rightarrow> bool" where
  create: "reachable map_create"
| set: "reachable m \<Longrightarrow> map_set m k v = Inr m' \<Longrightarrow> reachable m'"
| remove: "reachable m \<Longrightarrow> map_remove m k = (Inr v, m') \<Longrightarrow> reachable m'"

text \<open>The cells of a table, bucket after bucket, and two tables with the keys \<^verbatim>\<open>a\<close>, \<^verbatim>\<open>b\<close>
  and \<^verbatim>\<open>c\<close> to run the operations on.\<close>

definition cells :: "'v map_t \<Rightarrow> 'v cell list" where
  "cells m = concat (elems m)"

definition table_ab :: "nat map_t" where
  "table_ab =
     \<lparr>elems = [[\<lparr>key = [0x61], val = 1\<rparr>], [\<lparr>key = [0x62], val = 2\<rparr>]],
      capacity = 2, size_m = 2\<rparr>"

definition table_abc :: "nat map_t" where
  "table_abc =
     \<lparr>elems = [[\<lparr>key = [0x61], val = 1\<rparr>], [], [\<lparr>key = [0x63], val = 3\<rparr>],
               [\<lparr>key = [0x62], val = 2\<rparr>]],
      capacity = 4, size_m = 3\<rparr>"

text \<open>
  A table that is full at the largest capacity an \<^verbatim>\<open>int\<close> can hold doubled: \<open>fill n\<close> is
  \<^verbatim>\<open>map_create\<close> followed by \<open>n\<close> calls of \<^verbatim>\<open>map_set\<close>, with the keys
  \<open>ones 0\<close>, \<open>ones 1\<close>, \<dots>, where \<open>ones i\<close> is the string of \<open>i\<close> bytes of value 1.
\<close>

definition ones :: "nat \<Rightarrow> byte list" where
  "ones n = replicate n 1"


section \<open>Properties of the hash\<close>

lemma cstr_Nil [simp]: "cstr [] = []"
  by (simp add: cstr_def)

lemma cstr_Cons: "cstr (c # cs) = (if c = 0 then [] else c # cstr cs)"
  by (simp add: cstr_def)

lemma cstr_idem [simp]: "cstr (cstr s) = cstr s"
  by (induction s) (simp_all add: cstr_Cons)

lemma hash_loop_cstr: "hash_loop h (cstr s) = hash_loop h s"
  by (induction s arbitrary: h) (simp_all add: cstr_Cons)

lemma hash_cstr [simp]: "hash (cstr s) = hash s"
  by (simp add: hash_def hash_loop_cstr)

lemma slot_cstr [simp]: "slot cap (cstr s) = slot cap s"
  by (simp add: slot_def)

lemma step_word: "unat ((h * 31) XOR (ucast (b::byte) :: 32 word)) = spec_hash_step (unat h) b"
proof -
  have b: "unat b < 2 ^ 32" using unsigned_less[of b, where 'a=nat] by simp
  have "unat ((h * 31) XOR (ucast b :: 32 word)) = unat (h * 31) XOR unat (ucast b :: 32 word)"
    by (simp add: unsigned_xor_eq)
  also have "unat (ucast b :: 32 word) = unat b"
    using b by (simp add: unsigned_ucast_eq take_bit_nat_eq_self)
  also have "unat (h * 31) = (unat h * 31) mod 2 ^ 32"
    by (simp add: unat_word_ariths)
  also have "((unat h * 31) mod 2 ^ 32) XOR unat b = ((unat h * 31) XOR unat b) mod 2 ^ 32"
  proof -
    have "((unat h * 31) XOR unat b) mod 2 ^ 32 = take_bit 32 ((unat h * 31) XOR unat b)"
      by (simp only: take_bit_eq_mod)
    also have "\<dots> = take_bit 32 (unat h * 31) XOR take_bit 32 (unat b)"
      by (simp only: Bit_Operations.take_bit_xor)
    also have "take_bit 32 (unat b) = unat b"
      using b by (simp only: take_bit_nat_eq_self)
    also have "take_bit 32 (unat h * 31) = (unat h * 31) mod 2 ^ 32"
      by (simp only: take_bit_eq_mod)
    finally show ?thesis by simp
  qed
  finally show ?thesis by (simp add: spec_hash_step_def)
qed

lemma hash_loop_fold: "unat (hash_loop h k) = foldl spec_hash_step (unat h) (cstr k)"
  by (induction k arbitrary: h) (simp_all add: cstr_Cons step_word)



section \<open>Properties of the table\<close>

lemma invar_cap_pow: "invar m \<Longrightarrow> \<exists>n<31. capacity m = 2 ^ n"
  by (auto simp: invar_def)

lemma invar_cap_pos: "invar m \<Longrightarrow> 0 < capacity m"
  using invar_cap_pow by fastforce

lemma pow2_le_30: "n < 31 \<Longrightarrow> (2::int) ^ n \<le> 2 ^ 30"
  by (rule power_increasing) simp_all

lemma invar_cap_le: "invar m \<Longrightarrow> capacity m \<le> 2 ^ 30"
  using invar_cap_pow pow2_le_30 by fastforce

lemma unat_word_of_cap:
  assumes "0 < cap" "cap < 2 ^ 32"
  shows "unat (word_of_int cap :: 32 word) = nat cap"
  using assms by (simp add: unsigned_of_int take_bit_int_eq_self nat_take_bit_eq)

lemma slot_nat_mod:
  assumes "0 < cap" "cap < 2 ^ 32"
  shows "slot cap k = unat (hash k) mod nat cap"
  using assms by (simp add: slot_def unat_mod unat_word_of_cap)

lemma slot_less:
  assumes "0 < cap" "cap < 2 ^ 32"
  shows "slot cap k < nat cap"
  using assms by (simp add: slot_nat_mod)

lemma strcmp_eq_refl_cstr [simp]: "strcmp_eq (cstr k) k"
  by (simp add: strcmp_eq_def)

subsection \<open>One chain\<close>

lemma chain_contains_get: "chain_contains ch k \<longleftrightarrow> chain_get ch k \<noteq> None"
  by (induction ch) simp_all

lemma chain_get_Some_iff:
  assumes "distinct (map key ch)" "\<forall>c \<in> set ch. cstr (key c) = key c"
  shows "chain_get ch k = Some v \<longleftrightarrow> (\<exists>c \<in> set ch. key c = cstr k \<and> val c = v)"
  using assms
proof (induction ch)
  case Nil
  then show ?case by simp
next
  case (Cons c cs)
  then show ?case by (auto simp: strcmp_eq_def rev_image_eqI)
qed

lemma chain_set_None: "chain_set ch k v = None \<longleftrightarrow> \<not> chain_contains ch k"
  by (induction ch) (auto split: option.splits)

lemma chain_set_keys: "chain_set ch k v = Some ch' \<Longrightarrow> map key ch' = map key ch"
  by (induction ch arbitrary: ch') (auto split: if_splits option.splits)

lemma chain_set_get: "chain_set ch k v = Some ch' \<Longrightarrow> chain_get ch' k = Some v"
  by (induction ch arbitrary: ch') (auto split: if_splits option.splits)

lemma chain_set_get_other:
  "chain_set ch k v = Some ch' \<Longrightarrow> \<not> strcmp_eq k' k \<Longrightarrow> chain_get ch' k' = chain_get ch k'"
  by (induction ch arbitrary: ch') (auto simp: strcmp_eq_def split: if_splits option.splits)

lemma chain_remove_None: "chain_remove ch k = None \<longleftrightarrow> \<not> chain_contains ch k"
  by (induction ch) (auto split: option.splits)

lemma chain_remove_get: "chain_remove ch k = Some (v, ch') \<Longrightarrow> chain_get ch k = Some v"
  by (induction ch arbitrary: ch') (auto split: if_splits option.splits)

lemma chain_remove_length: "chain_remove ch k = Some (v, ch') \<Longrightarrow> length ch = Suc (length ch')"
  by (induction ch arbitrary: ch') (auto split: if_splits option.splits)

lemma chain_remove_set: "chain_remove ch k = Some (v, ch') \<Longrightarrow> set ch' \<subseteq> set ch"
  by (induction ch arbitrary: ch') (auto split: if_splits option.splits)

lemma chain_remove_distinct:
  "chain_remove ch k = Some (v, ch') \<Longrightarrow> distinct (map key ch) \<Longrightarrow> distinct (map key ch')"
proof (induction ch arbitrary: ch')
  case Nil
  then show ?case by simp
next
  case (Cons c cs)
  show ?case
  proof (cases "strcmp_eq (key c) k")
    case True
    with Cons.prems show ?thesis by simp
  next
    case False
    with Cons.prems obtain cs' where r: "chain_remove cs k = Some (v, cs')" and e: "ch' = c # cs'"
      by (auto split: option.splits)
    from Cons.IH [OF r] Cons.prems(2) have "distinct (map key cs')" by simp
    moreover from chain_remove_set [OF r] Cons.prems(2) have "key c \<notin> key ` set cs'" by auto
    ultimately show ?thesis using e by simp
  qed
qed

lemma chain_remove_gone:
  assumes "chain_remove ch k = Some (v, ch')" "distinct (map key ch)"
    "\<forall>c \<in> set ch. cstr (key c) = key c"
  shows "\<not> chain_contains ch' k"
  using assms
proof (induction ch arbitrary: ch')
  case Nil
  then show ?case by simp
next
  case (Cons c cs)
  show ?case
  proof (cases "strcmp_eq (key c) k")
    case True
    with Cons.prems have e: "ch' = cs" and kc: "key c = cstr k"
      by (auto simp: strcmp_eq_def)
    have "chain_get cs k = None"
    proof (cases "chain_get cs k")
      case None
      then show ?thesis .
    next
      case (Some w)
      with Cons.prems chain_get_Some_iff [of cs k w] have "cstr k \<in> key ` set cs"
        by (auto simp: rev_image_eqI)
      with Cons.prems(2) kc show ?thesis by simp
    qed
    with e show ?thesis by (simp add: chain_contains_get)
  next
    case False
    with Cons.prems obtain cs' where r: "chain_remove cs k = Some (v, cs')" and e: "ch' = c # cs'"
      by (auto split: option.splits)
    from Cons.IH [OF r] Cons.prems have "\<not> chain_contains cs' k" by simp
    with e False show ?thesis by simp
  qed
qed

lemma chain_remove_get_other:
  "chain_remove ch k = Some (v, ch') \<Longrightarrow> \<not> strcmp_eq k' k \<Longrightarrow> chain_get ch' k' = chain_get ch k'"
  by (induction ch arbitrary: ch') (auto simp: strcmp_eq_def split: if_splits option.splits)

subsection \<open>The array of chains\<close>

lemma length_concat_update:
  "b < length xss \<Longrightarrow>
   int (length (concat (xss[b := ys]))) =
   int (length (concat xss)) - int (length (xss ! b)) + int (length ys)"
proof (induction xss arbitrary: b)
  case Nil
  then show ?case by simp
next
  case (Cons xs xss)
  then show ?case by (cases b) simp_all
qed

lemma invar_length: "invar m \<Longrightarrow> length (elems m) = nat (capacity m)"
  by (simp add: invar_def)

lemma invar_bucket: "invar m \<Longrightarrow> i < length (elems m) \<Longrightarrow> bucket_ok (capacity m) i (elems m ! i)"
  by (simp add: invar_def)

lemma invar_slot_less: "invar m \<Longrightarrow> slot (capacity m) k < length (elems m)"
proof -
  assume i: "invar m"
  have "capacity m < 2 ^ 32" using invar_cap_le [OF i] by simp
  with invar_cap_pos [OF i] have "slot (capacity m) k < nat (capacity m)" by (rule slot_less)
  with i show ?thesis by (simp add: invar_length)
qed

lemma in_concat_nth: "c \<in> set (concat xss) \<longleftrightarrow> (\<exists>i < length xss. c \<in> set (xss ! i))"
  by (simp add: set_concat) (metis in_set_conv_nth)

lemma in_cells_iff: "c \<in> set (cells m) \<longleftrightarrow> (\<exists>i < length (elems m). c \<in> set (elems m ! i))"
  by (simp only: cells_def in_concat_nth)

lemma invar_cell_slot:
  assumes "invar m" "c \<in> set (cells m)"
  shows "c \<in> set (elems m ! slot (capacity m) (key c))" and "cstr (key c) = key c"
proof -
  from assms(2) obtain i where i: "i < length (elems m)" "c \<in> set (elems m ! i)"
    by (auto simp: in_cells_iff)
  with invar_bucket [OF assms(1) i(1)] have "slot (capacity m) (key c) = i" "cstr (key c) = key c"
    by (auto simp: bucket_ok_def)
  with i show "c \<in> set (elems m ! slot (capacity m) (key c))" "cstr (key c) = key c"
    by simp_all
qed

lemma lookup_iff:
  assumes "invar m"
  shows "chain_get (elems m ! slot (capacity m) k) k = Some v \<longleftrightarrow>
         (\<exists>c \<in> set (cells m). key c = cstr k \<and> val c = v)"
proof -
  let ?b = "slot (capacity m) k"
  have b: "?b < length (elems m)" by (rule invar_slot_less [OF assms])
  have ok: "bucket_ok (capacity m) ?b (elems m ! ?b)" by (rule invar_bucket [OF assms b])
  then have iff: "chain_get (elems m ! ?b) k = Some v \<longleftrightarrow>
      (\<exists>c \<in> set (elems m ! ?b). key c = cstr k \<and> val c = v)"
    by (intro chain_get_Some_iff) (simp_all add: bucket_ok_def)
  show ?thesis
  proof
    assume "chain_get (elems m ! ?b) k = Some v"
    with iff obtain c where "c \<in> set (elems m ! ?b)" "key c = cstr k" "val c = v" by blast
    moreover from this(1) b have "c \<in> set (cells m)" unfolding in_cells_iff by blast
    ultimately show "\<exists>c \<in> set (cells m). key c = cstr k \<and> val c = v" by blast
  next
    assume "\<exists>c \<in> set (cells m). key c = cstr k \<and> val c = v"
    then obtain c where c: "c \<in> set (cells m)" "key c = cstr k" "val c = v" by blast
    from invar_cell_slot(1) [OF assms c(1)] c(2) have "c \<in> set (elems m ! ?b)" by simp
    with iff c show "chain_get (elems m ! ?b) k = Some v" by blast
  qed
qed

lemma contains_iff:
  assumes "invar m"
  shows "map_contains m k \<longleftrightarrow> cstr k \<in> key ` set (cells m)"
proof -
  have "map_contains m k \<longleftrightarrow> (\<exists>v. chain_get (elems m ! slot (capacity m) k) k = Some v)"
    by (simp add: map_contains_def chain_contains_get)
  also have "\<dots> \<longleftrightarrow> (\<exists>v. \<exists>c \<in> set (cells m). key c = cstr k \<and> val c = v)"
    by (simp only: lookup_iff [OF assms])
  also have "\<dots> \<longleftrightarrow> cstr k \<in> key ` set (cells m)"
    by (metis image_iff)
  finally show ?thesis .
qed

lemma get_iff:
  assumes "invar m"
  shows "map_get m k = Inr v \<longleftrightarrow> (\<exists>c \<in> set (cells m). key c = cstr k \<and> val c = v)"
proof -
  have "map_get m k = Inr v \<longleftrightarrow> chain_get (elems m ! slot (capacity m) k) k = Some v"
    by (simp add: map_get_def split: option.splits)
  then show ?thesis by (simp only: lookup_iff [OF assms])
qed

lemma get_Inl: "map_get m k = Inl e \<longleftrightarrow> e = KeyNotFound \<and> \<not> map_contains m k"
  by (auto simp: map_get_def map_contains_def chain_contains_get split: option.splits)

lemma distinct_keys_concat:
  "(\<forall>i < length xss. distinct (map f (xss ! i)) \<and> (\<forall>c \<in> set (xss ! i). g (f c) = i + off)) \<Longrightarrow>
   distinct (map f (concat xss))"
proof (induction xss arbitrary: off)
  case Nil
  then show ?case by simp
next
  case (Cons xs xss)
  have hd: "distinct (map f xs)" "\<forall>c \<in> set xs. g (f c) = off"
    using Cons.prems by (auto dest: spec [of _ 0])
  have tl: "\<forall>i < length xss. distinct (map f (xss ! i)) \<and> (\<forall>c \<in> set (xss ! i). g (f c) = i + Suc off)"
    using Cons.prems by (auto dest: spec [of _ "Suc i" for i])
  have d: "distinct (map f (concat xss))" by (rule Cons.IH [OF tl])
  have "f c \<noteq> f c'" if "c \<in> set xs" "c' \<in> set (concat xss)" for c c'
  proof -
    from that(2) obtain i where "i < length xss" "c' \<in> set (xss ! i)"
      unfolding in_concat_nth by blast
    with tl have "g (f c') = i + Suc off" by blast
    moreover from hd that(1) have "g (f c) = off" by blast
    ultimately show ?thesis by auto
  qed
  then have "f ` set xs \<inter> f ` set (concat xss) = {}" by blast
  with hd d show ?case by simp
qed

lemma invar_distinct_keys: "invar m \<Longrightarrow> distinct (map key (cells m))"
  unfolding cells_def
  by (rule distinct_keys_concat [where g = "slot (capacity m)" and off = 0])
     (simp add: invar_def bucket_ok_def)

subsection \<open>Growth\<close>

lemma length_move_chain [simp]: "length (move_chain cap ch new) = length new"
  by (induction ch arbitrary: new) (simp_all add: Let_def)

lemma move_chain_nth:
  "i < length new \<Longrightarrow>
   move_chain cap ch new ! i = rev (filter (\<lambda>c. slot cap (key c) = i) ch) @ new ! i"
proof (induction ch arbitrary: new)
  case Nil
  then show ?case by simp
next
  case (Cons c cs)
  then show ?case by (simp add: Let_def nth_list_update)
qed

lemma length_fold_move [simp]:
  "length (fold (\<lambda>j acc. move_chain cap (old ! j) acc) js new) = length new"
  by (induction js arbitrary: new) simp_all

lemma fold_move_nth:
  "i < length new \<Longrightarrow>
   fold (\<lambda>j acc. move_chain cap (old ! j) acc) js new ! i =
   rev (filter (\<lambda>c. slot cap (key c) = i) (concat (map (nth old) js))) @ new ! i"
proof (induction js arbitrary: new)
  case Nil
  then show ?case by simp
next
  case (Cons j js)
  then show ?case by (simp add: move_chain_nth)
qed

lemma length_move_all [simp]: "length (move_all oc cap old new) = length new"
  by (simp add: move_all_def)

lemma move_all_nth:
  assumes "length old = nat oc" "i < n"
  shows "move_all oc cap old (replicate n []) ! i =
         rev (filter (\<lambda>c. slot cap (key c) = i) (concat old))"
proof -
  have "map (nth old) [0..<nat oc] = old"
    using assms(1) by (metis map_nth)
  with assms(2) show ?thesis
    by (simp add: move_all_def fold_move_nth)
qed

lemma length_concat_move_chain:
  "\<forall>c \<in> set ch. slot cap (key c) < length new \<Longrightarrow>
   length (concat (move_chain cap ch new)) = length ch + length (concat new)"
proof (induction ch arbitrary: new)
  case Nil
  then show ?case by simp
next
  case (Cons c cs)
  let ?b = "slot cap (key c)"
  let ?new = "new[?b := c # new ! ?b]"
  from Cons.prems have b: "?b < length new" by simp
  have "int (length (concat ?new)) = int (length (concat new)) + 1"
    using length_concat_update [OF b, of "c # new ! ?b"] by simp
  then have l: "length (concat ?new) = Suc (length (concat new))" by linarith
  from Cons.prems have "\<forall>c \<in> set cs. slot cap (key c) < length ?new" by simp
  from Cons.IH [OF this] l show ?case by (simp add: Let_def)
qed

lemma length_concat_fold_move:
  "\<forall>j \<in> set js. \<forall>c \<in> set (old ! j). slot cap (key c) < length new \<Longrightarrow>
   length (concat (fold (\<lambda>j acc. move_chain cap (old ! j) acc) js new)) =
   length (concat (map (nth old) js)) + length (concat new)"
proof (induction js arbitrary: new)
  case Nil
  then show ?case by simp
next
  case (Cons j js)
  from Cons.prems have 1: "\<forall>c \<in> set (old ! j). slot cap (key c) < length new" by simp
  from Cons.prems have 2: "\<forall>j \<in> set js. \<forall>c \<in> set (old ! j).
      slot cap (key c) < length (move_chain cap (old ! j) new)" by simp
  show ?case
    using Cons.IH [of "move_chain cap (old ! j) new"] 2 length_concat_move_chain [OF 1]
    by simp
qed

lemma length_concat_move_all:
  assumes "length old = nat oc" "0 < cap" "cap < 2 ^ 32"
  shows "length (concat (move_all oc cap old (replicate (nat cap) []))) = length (concat old)"
proof -
  have m: "map (nth old) [0..<nat oc] = old"
    using assms(1) by (metis map_nth)
  have "\<forall>j \<in> set [0..<nat oc]. \<forall>c \<in> set (old ! j).
      slot cap (key c) < length (replicate (nat cap) ([] :: 'a cell list))"
    using slot_less [OF assms(2,3)] by simp
  from length_concat_fold_move [OF this] m show ?thesis
    by (simp add: move_all_def)
qed

lemma pow2_double_bound:
  assumes "n < 31" "2 * (2::int) ^ n \<le> INT_MAX"
  shows "Suc n < 31"
proof (rule ccontr)
  assume "\<not> Suc n < 31"
  with assms(1) have "n = 30" by simp
  with assms(2) show False by (simp add: INT_MAX_def)
qed

lemma extend_same:
  "size_m m \<noteq> capacity m \<Longrightarrow> extend_if_necessary m = Inr m"
  by (simp add: extend_if_necessary_def)

lemma extend_grow_elems:
  assumes "invar m" "size_m m = capacity m" "extend_if_necessary m = Inr m'"
  shows "capacity m' = 2 * capacity m" and "size_m m' = size_m m"
    and "length (elems m') = nat (2 * capacity m)"
    and "2 * capacity m \<le> INT_MAX"
    and "\<forall>i < nat (2 * capacity m).
           elems m' ! i = rev (filter (\<lambda>c. slot (2 * capacity m) (key c) = i) (cells m))"
proof -
  from assms(2,3) have le: "2 * capacity m \<le> INT_MAX"
    and m': "m' = m\<lparr>capacity := 2 * capacity m,
                   elems := move_all (capacity m) (2 * capacity m) (elems m)
                              (replicate (nat (2 * capacity m)) [])\<rparr>"
    by (auto simp: extend_if_necessary_def Let_def split: if_splits)
  show "capacity m' = 2 * capacity m" "size_m m' = size_m m"
    "length (elems m') = nat (2 * capacity m)" "2 * capacity m \<le> INT_MAX"
    using m' le by simp_all
  show "\<forall>i < nat (2 * capacity m).
           elems m' ! i = rev (filter (\<lambda>c. slot (2 * capacity m) (key c) = i) (cells m))"
    using m' move_all_nth [OF invar_length [OF assms(1)]] by (simp add: cells_def)
qed

lemma extend_grow_invar:
  assumes "invar m" "size_m m = capacity m" "extend_if_necessary m = Inr m'"
  shows "invar m'"
proof -
  note g = extend_grow_elems [OF assms]
  from invar_cap_pow [OF assms(1)] obtain n where n: "n < 31" "capacity m = 2 ^ n" by blast
  from g(4) n(2) have "2 * (2::int) ^ n \<le> INT_MAX" by simp
  from pow2_double_bound [OF n(1) this] have "Suc n \<in> set [0..<31]" by simp
  then have "(2::int) ^ Suc n \<in> (\<lambda>n. 2 ^ n) ` set [0..<31]" by (rule imageI)
  moreover have "capacity m' = 2 ^ Suc n" using g(1) n by simp
  ultimately have pow: "capacity m' \<in> set (map (\<lambda>n. 2 ^ n) [0..<31])"
    by (simp only: set_map)
  have pos: "0 < capacity m" by (rule invar_cap_pos [OF assms(1)])
  have len: "length (elems m') = nat (capacity m')" using g by simp
  have "2 * capacity m < 2 ^ 32" using g(4) by (simp add: INT_MAX_def)
  with assms(3) assms(2) g(4) pos
  have "length (concat (elems m')) = length (concat (elems m))"
    using length_concat_move_all [OF invar_length [OF assms(1)], of "2 * capacity m"]
    by (auto simp: extend_if_necessary_def Let_def split: if_splits)
  then have sz: "size_m m' = int (length (concat (elems m')))"
    using g(2) assms(1) by (simp add: invar_def)
  have le: "size_m m' \<le> capacity m'" using g assms(2) pos by simp
  have ok: "bucket_ok (capacity m') i (elems m' ! i)" if "i < length (elems m')" for i
  proof -
    from that g have e: "elems m' ! i = rev (filter (\<lambda>c. slot (2 * capacity m) (key c) = i) (cells m))"
      by simp
    have "distinct (map key (filter (\<lambda>c. slot (2 * capacity m) (key c) = i) (cells m)))"
      by (rule distinct_map_filter) (rule invar_distinct_keys [OF assms(1)])
    then have "distinct (map key (elems m' ! i))"
      by (simp add: e rev_map [symmetric] del: rev_map)
    moreover have "\<forall>c \<in> set (elems m' ! i). slot (capacity m') (key c) = i \<and> cstr (key c) = key c"
      using e g(1) invar_cell_slot(2) [OF assms(1)] by simp
    ultimately show ?thesis by (simp add: bucket_ok_def)
  qed
  show ?thesis
    unfolding invar_def using pow len sz le ok by simp
qed

lemma extend_grow_cells:
  assumes "invar m" "size_m m = capacity m" "extend_if_necessary m = Inr m'"
  shows "set (cells m') = set (cells m)"
proof -
  note g = extend_grow_elems [OF assms]
  have pos: "0 < 2 * capacity m" using invar_cap_pos [OF assms(1)] by simp
  have lt: "2 * capacity m < 2 ^ 32" using g(4) by (simp add: INT_MAX_def)
  have "c \<in> set (cells m') \<longleftrightarrow> c \<in> set (cells m)" for c
  proof
    assume "c \<in> set (cells m')"
    then obtain i where "i < length (elems m')" "c \<in> set (elems m' ! i)"
      unfolding in_cells_iff by blast
    with g show "c \<in> set (cells m)" by simp
  next
    assume c: "c \<in> set (cells m)"
    let ?i = "slot (2 * capacity m) (key c)"
    have i: "?i < nat (2 * capacity m)" by (rule slot_less [OF pos lt])
    with g c have "c \<in> set (elems m' ! ?i)" by simp
    with i g(3) show "c \<in> set (cells m')" unfolding in_cells_iff by auto
  qed
  then show ?thesis by blast
qed

lemma extend_invar:
  assumes "invar m" "extend_if_necessary m = Inr m'"
  shows "invar m'" and "set (cells m') = set (cells m)" and "size_m m' = size_m m"
    and "size_m m' < capacity m'"
    and "capacity m' = (if size_m m = capacity m then 2 * capacity m else capacity m)"
proof -
  have "invar m' \<and> set (cells m') = set (cells m) \<and> size_m m' = size_m m \<and>
    size_m m' < capacity m' \<and>
    capacity m' = (if size_m m = capacity m then 2 * capacity m else capacity m)"
  proof (cases "size_m m = capacity m")
    case True
    note g = extend_grow_elems(1,2) [OF assms(1) True assms(2)]
    from g True invar_cap_pos [OF assms(1)] have "size_m m' < capacity m'" by simp
    with g True extend_grow_invar [OF assms(1) True assms(2)]
      extend_grow_cells [OF assms(1) True assms(2)]
    show ?thesis by simp
  next
    case False
    from extend_same [OF False] assms(2) have "m' = m" by simp
    with assms(1) False show ?thesis by (simp add: invar_def)
  qed
  then show "invar m'" and "set (cells m') = set (cells m)" and "size_m m' = size_m m"
    and "size_m m' < capacity m'"
    and "capacity m' = (if size_m m = capacity m then 2 * capacity m else capacity m)"
    by simp_all
qed

subsection \<open>Replacing one chain\<close>

lemma invar_update_bucket:
  assumes "invar m" "b < length (elems m)" "bucket_ok (capacity m) b ch"
    "sz = size_m m - int (length (elems m ! b)) + int (length ch)" "sz \<le> capacity m"
  shows "invar (m\<lparr>elems := (elems m)[b := ch], size_m := sz\<rparr>)"
proof -
  have "int (length (concat ((elems m)[b := ch]))) = sz"
    using length_concat_update [OF assms(2), of ch] assms(1,4) by (simp add: invar_def)
  moreover have "bucket_ok (capacity m) i ((elems m)[b := ch] ! i)" if "i < length (elems m)" for i
    using that assms(1,2,3) by (cases "i = b") (simp_all add: invar_bucket)
  ultimately show ?thesis
    using assms(1,5) by (simp add: invar_def)
qed

lemma set_cells_update:
  assumes "b < length (elems m)"
  shows "set (cells (m\<lparr>elems := (elems m)[b := ch], size_m := sz\<rparr>)) =
         set ch \<union> {c. \<exists>i < length (elems m). i \<noteq> b \<and> c \<in> set (elems m ! i)}"
proof -
  have "c \<in> set (concat ((elems m)[b := ch])) \<longleftrightarrow>
        c \<in> set ch \<or> (\<exists>i < length (elems m). i \<noteq> b \<and> c \<in> set (elems m ! i))" for c
  proof -
    have "c \<in> set (concat ((elems m)[b := ch])) \<longleftrightarrow>
          (\<exists>i < length (elems m). c \<in> set ((elems m)[b := ch] ! i))"
      by (simp only: in_concat_nth length_list_update)
    also have "\<dots> \<longleftrightarrow> c \<in> set ch \<or> (\<exists>i < length (elems m). i \<noteq> b \<and> c \<in> set (elems m ! i))"
      using assms by (auto simp: nth_list_update)
    finally show ?thesis .
  qed
  then show ?thesis by (auto simp: cells_def)
qed

subsection \<open>\<open>map_set\<close> on a key that is present\<close>

lemma set_present:
  assumes "map_contains m k"
  obtains ch where "chain_set (elems m ! slot (capacity m) k) k v = Some ch"
    and "map_set m k v = Inr (m\<lparr>elems := (elems m)[slot (capacity m) k := ch]\<rparr>)"
proof -
  from assms have "chain_set (elems m ! slot (capacity m) k) k v \<noteq> None"
    by (simp add: map_contains_def chain_set_None)
  then obtain ch where ch: "chain_set (elems m ! slot (capacity m) k) k v = Some ch" by blast
  then have "map_set m k v = Inr (m\<lparr>elems := (elems m)[slot (capacity m) k := ch]\<rparr>)"
    by (simp add: map_set_def)
  with ch that show thesis by blast
qed

lemma chain_set_bucket_ok:
  assumes "chain_set ch k v = Some ch'" "bucket_ok cap b ch"
  shows "bucket_ok cap b ch'"
proof -
  from chain_set_keys [OF assms(1)] have e: "map key ch' = map key ch" .
  then have i: "key ` set ch' = key ` set ch" by (metis set_map)
  have "slot cap (key c) = b \<and> cstr (key c) = key c" if "c \<in> set ch'" for c
  proof -
    from that i obtain c0 where "c0 \<in> set ch" "key c0 = key c" by (metis image_iff)
    with assms(2) show ?thesis by (auto simp: bucket_ok_def)
  qed
  with e assms(2) show ?thesis by (simp add: bucket_ok_def)
qed

lemma set_present_invar:
  assumes "invar m" "map_contains m k" "map_set m k v = Inr m'"
  shows "invar m'" and "capacity m' = capacity m" and "size_m m' = size_m m"
    and "map (map key) (elems m') = map (map key) (elems m)"
    and "map_get m' k = Inr v"
    and "\<forall>k'. \<not> strcmp_eq k' k \<longrightarrow> map_get m' k' = map_get m k'"
proof -
  let ?b = "slot (capacity m) k"
  from set_present [OF assms(2), of v] assms(3) obtain ch
    where ch: "chain_set (elems m ! ?b) k v = Some ch"
      and m': "m' = m\<lparr>elems := (elems m)[?b := ch]\<rparr>" by auto
  have b: "?b < length (elems m)" by (rule invar_slot_less [OF assms(1)])
  have keys: "map key ch = map key (elems m ! ?b)" by (rule chain_set_keys [OF ch])
  then have len: "length ch = length (elems m ! ?b)" by (metis length_map)
  have ok: "bucket_ok (capacity m) ?b ch"
    by (rule chain_set_bucket_ok [OF ch invar_bucket [OF assms(1) b]])
  have "invar (m\<lparr>elems := (elems m)[?b := ch], size_m := size_m m\<rparr>)"
    using assms(1) by (intro invar_update_bucket [OF assms(1) b ok]) (simp_all add: len invar_def)
  then show "invar m'" by (simp add: m')
  show "capacity m' = capacity m" "size_m m' = size_m m" by (simp_all add: m')
  show "map (map key) (elems m') = map (map key) (elems m)"
    using b keys by (simp add: m' map_update list_update_same_conv)
  show "map_get m' k = Inr v"
    using b chain_set_get [OF ch] by (simp add: m' map_get_def)
  show "\<forall>k'. \<not> strcmp_eq k' k \<longrightarrow> map_get m' k' = map_get m k'"
  proof (intro allI impI)
    fix k' assume ne: "\<not> strcmp_eq k' k"
    show "map_get m' k' = map_get m k'"
    proof (cases "slot (capacity m) k' = ?b")
      case True
      with b chain_set_get_other [OF ch ne] show ?thesis by (simp add: m' map_get_def)
    next
      case False
      then show ?thesis by (simp add: m' map_get_def)
    qed
  qed
qed

subsection \<open>\<open>map_set\<close> on a new key\<close>

lemma set_absent:
  assumes "\<not> map_contains m k" "map_set m k v = Inr m'"
  obtains m1 where "extend_if_necessary m = Inr m1"
    and "m' = m1\<lparr>elems := (elems m1)[slot (capacity m1) k :=
                    \<lparr>key = cstr k, val = v\<rparr> # elems m1 ! slot (capacity m1) k],
                  size_m := size_m m1 + 1\<rparr>"
proof -
  from assms(1) have n: "chain_set (elems m ! slot (capacity m) k) k v = None"
    by (simp add: map_contains_def chain_set_None)
  from assms(2) n obtain m1 where ext: "extend_if_necessary m = Inr m1"
    by (cases "extend_if_necessary m") (simp_all add: map_set_def Let_def)
  with assms(2) n
  have "m' = m1\<lparr>elems := (elems m1)[slot (capacity m1) k :=
                    \<lparr>key = cstr k, val = v\<rparr> # elems m1 ! slot (capacity m1) k],
                  size_m := size_m m1 + 1\<rparr>"
    by (simp add: map_set_def Let_def)
  with ext that show thesis by blast
qed

lemma set_absent_invar:
  assumes "invar m" "\<not> map_contains m k" "map_set m k v = Inr m'"
  shows "invar m'"
    and "set (cells m') = insert \<lparr>key = cstr k, val = v\<rparr> (set (cells m))"
    and "size_m m' = size_m m + 1"
    and "capacity m' = (if size_m m = capacity m then 2 * capacity m else capacity m)"
    and "hd (elems m' ! slot (capacity m') k) = \<lparr>key = cstr k, val = v\<rparr>"
proof -
  let ?new = "\<lparr>key = cstr k, val = v\<rparr>"
  from set_absent [OF assms(2,3)] obtain m1 where ext: "extend_if_necessary m = Inr m1"
    and m': "m' = m1\<lparr>elems := (elems m1)[slot (capacity m1) k := ?new # elems m1 ! slot (capacity m1) k],
                  size_m := size_m m1 + 1\<rparr>" by blast
  note e = extend_invar [OF assms(1) ext]
  let ?b = "slot (capacity m1) k"
  have b: "?b < length (elems m1)" by (rule invar_slot_less [OF e(1)])
  have absent: "cstr k \<notin> key ` set (cells m1)"
    using assms(2) e(2) by (simp add: contains_iff [OF assms(1)])
  have old: "bucket_ok (capacity m1) ?b (elems m1 ! ?b)" by (rule invar_bucket [OF e(1) b])
  have "set (elems m1 ! ?b) \<subseteq> set (cells m1)"
    using b unfolding in_cells_iff subset_eq by blast
  with absent have "cstr k \<notin> key ` set (elems m1 ! ?b)" by blast
  with old have ok: "bucket_ok (capacity m1) ?b (?new # elems m1 ! ?b)"
    by (simp add: bucket_ok_def)
  have "invar (m1\<lparr>elems := (elems m1)[?b := ?new # elems m1 ! ?b], size_m := size_m m1 + 1\<rparr>)"
    using e(4) by (intro invar_update_bucket [OF e(1) b ok]) simp_all
  then show "invar m'" by (simp add: m')
  have "set (cells m') = set (?new # elems m1 ! ?b) \<union>
      {c. \<exists>i < length (elems m1). i \<noteq> ?b \<and> c \<in> set (elems m1 ! i)}"
    unfolding m' by (rule set_cells_update [OF b])
  also have "\<dots> = insert ?new (set (cells m1))"
  proof -
    have "c \<in> set (cells m1) \<longleftrightarrow>
      c \<in> set (elems m1 ! ?b) \<or> (\<exists>i < length (elems m1). i \<noteq> ?b \<and> c \<in> set (elems m1 ! i))" for c
      unfolding in_cells_iff using b by blast
    then show ?thesis by auto
  qed
  finally show "set (cells m') = insert ?new (set (cells m))" by (simp add: e(2))
  show "size_m m' = size_m m + 1" by (simp add: m' e(3))
  show "capacity m' = (if size_m m = capacity m then 2 * capacity m else capacity m)"
    using e(5) by (simp add: m')
  show "hd (elems m' ! slot (capacity m') k) = ?new"
    using b by (simp add: m')
qed


lemma set_invar:
  assumes "invar m" "map_set m k v = Inr m'"
  shows "invar m'"
proof (cases "map_contains m k")
  case True
  show ?thesis by (rule set_present_invar(1) [OF assms(1) True assms(2)])
next
  case False
  show ?thesis by (rule set_absent_invar(1) [OF assms(1) False assms(2)])
qed

subsection \<open>\<open>map_remove\<close>\<close>

lemma remove_absent: "\<not> map_contains m k \<Longrightarrow> map_remove m k = (Inl KeyNotFound, m)"
  by (simp add: map_remove_def map_contains_def chain_remove_None [symmetric])

lemma remove_present:
  assumes "map_contains m k"
  obtains v ch where "chain_remove (elems m ! slot (capacity m) k) k = Some (v, ch)"
    and "map_remove m k =
           (Inr v, m\<lparr>elems := (elems m)[slot (capacity m) k := ch], size_m := size_m m - 1\<rparr>)"
proof -
  from assms have "chain_remove (elems m ! slot (capacity m) k) k \<noteq> None"
    by (simp add: map_contains_def chain_remove_None)
  then obtain v ch where r: "chain_remove (elems m ! slot (capacity m) k) k = Some (v, ch)"
    by auto
  then have "map_remove m k =
      (Inr v, m\<lparr>elems := (elems m)[slot (capacity m) k := ch], size_m := size_m m - 1\<rparr>)"
    by (simp add: map_remove_def)
  with r that show thesis by blast
qed

lemma remove_returns_iff: "(\<exists>v m'. map_remove m k = (Inr v, m')) \<longleftrightarrow> map_contains m k"
proof
  assume "\<exists>v m'. map_remove m k = (Inr v, m')"
  then show "map_contains m k" using remove_absent [of m k] by (cases "map_contains m k") auto
next
  assume "map_contains m k"
  from remove_present [OF this] show "\<exists>v m'. map_remove m k = (Inr v, m')" by metis
qed

lemma remove_invar:
  assumes "invar m" "map_remove m k = (Inr v, m')"
  shows "invar m'" and "capacity m' = capacity m" and "size_m m' = size_m m - 1"
    and "map_get m k = Inr v" and "\<not> map_contains m' k"
    and "\<forall>k'. \<not> strcmp_eq k' k \<longrightarrow> map_get m' k' = map_get m k'"
proof -
  let ?b = "slot (capacity m) k"
  from assms(2) have c: "map_contains m k" using remove_returns_iff [of m k] by blast
  from remove_present [OF c] obtain v0 ch
    where r0: "chain_remove (elems m ! ?b) k = Some (v0, ch)"
      and e0: "map_remove m k = (Inr v0, m\<lparr>elems := (elems m)[?b := ch], size_m := size_m m - 1\<rparr>)"
    by blast
  from e0 assms(2) have v0: "v0 = v"
    and m': "m' = m\<lparr>elems := (elems m)[?b := ch], size_m := size_m m - 1\<rparr>"
    by simp_all
  from r0 v0 have r: "chain_remove (elems m ! ?b) k = Some (v, ch)" by simp
  have b: "?b < length (elems m)" by (rule invar_slot_less [OF assms(1)])
  have old: "bucket_ok (capacity m) ?b (elems m ! ?b)" by (rule invar_bucket [OF assms(1) b])
  have ok: "bucket_ok (capacity m) ?b ch"
    using old chain_remove_distinct [OF r] chain_remove_set [OF r]
    unfolding bucket_ok_def by blast
  have len: "length (elems m ! ?b) = Suc (length ch)" by (rule chain_remove_length [OF r])
  have "invar (m\<lparr>elems := (elems m)[?b := ch], size_m := size_m m - 1\<rparr>)"
    using assms(1) by (intro invar_update_bucket [OF assms(1) b ok]) (simp_all add: len invar_def)
  then show "invar m'" by (simp add: m')
  show "capacity m' = capacity m" "size_m m' = size_m m - 1" by (simp_all add: m')
  show "map_get m k = Inr v" using chain_remove_get [OF r] by (simp add: map_get_def)
  show "\<not> map_contains m' k"
    using b old chain_remove_gone [OF r] by (simp add: m' map_contains_def bucket_ok_def)
  show "\<forall>k'. \<not> strcmp_eq k' k \<longrightarrow> map_get m' k' = map_get m k'"
  proof (intro allI impI)
    fix k' assume ne: "\<not> strcmp_eq k' k"
    show "map_get m' k' = map_get m k'"
    proof (cases "slot (capacity m) k' = ?b")
      case True
      with b chain_remove_get_other [OF r ne] show ?thesis by (simp add: m' map_get_def)
    next
      case False
      then show ?thesis by (simp add: m' map_get_def)
    qed
  qed
qed

subsection \<open>Reachable tables are well formed\<close>

lemma create_invar: "invar map_create"
proof -
  have "(2::int) ^ 0 \<in> (\<lambda>n. 2 ^ n) ` set [0..<31]" by (rule imageI) simp
  then have "(1::int) \<in> set (map (\<lambda>n. 2 ^ n) [0..<31])" by (simp only: set_map power_0)
  then show ?thesis by (simp add: invar_def map_create_def bucket_ok_def)
qed

lemma reachable_invar: "reachable m \<Longrightarrow> invar m"
proof (induction rule: reachable.induct)
  case create
  show ?case by (rule create_invar)
next
  case (set m k v m')
  then show ?case by (blast intro: set_invar)
next
  case (remove m k v m')
  then show ?case by (blast intro: remove_invar(1))
qed

subsection \<open>Iteration\<close>

lemma find_nonempty_from:
  "s \<le> length xss \<Longrightarrow>
   (case find (\<lambda>i. xss ! i \<noteq> []) [s..<length xss] of
      None \<Rightarrow> concat (drop s xss) = []
    | Some i \<Rightarrow> s \<le> i \<and> i < length xss \<and> xss ! i \<noteq> [] \<and>
        concat (drop s xss) = xss ! i @ concat (drop (Suc i) xss))"
proof (induction "length xss - s" arbitrary: s)
  case 0
  then show ?case by simp
next
  case (Suc d)
  then have lt: "s < length xss" by simp
  have u: "[s..<length xss] = s # [Suc s..<length xss]" using lt by (rule upt_conv_Cons)
  have dr: "drop s xss = xss ! s # drop (Suc s) xss" using lt by (simp add: Cons_nth_drop_Suc)
  show ?case
  proof (cases "xss ! s = []")
    case False
    with lt show ?thesis by (simp add: u dr)
  next
    case True
    from Suc.hyps(2) have d: "d = length xss - Suc s" by simp
    from lt have le: "Suc s \<le> length xss" by simp
    from Suc.hyps(1) [OF d le] True show ?thesis
      by (auto simp: u dr split: option.splits)
  qed
qed

lemma scan_from_spec:
  assumes "invar m" "s \<le> length (elems m)"
  shows "case scan_from m s of
           None \<Rightarrow> concat (drop s (elems m)) = []
         | Some c \<Rightarrow> snd c = 0 \<and> fst c < length (elems m) \<and> elems m ! fst c \<noteq> [] \<and>
             concat (drop s (elems m)) = elems m ! fst c @ concat (drop (Suc (fst c)) (elems m))"
  using find_nonempty_from [OF assms(2)] invar_length [OF assms(1)]
  by (simp add: scan_from_def split: option.splits)

lemma walk_from_cursor:
  assumes "invar m"
  shows "i < length (elems m) \<Longrightarrow> j < length (elems m ! i) \<Longrightarrow>
    length (drop j (elems m ! i)) + length (concat (drop (Suc i) (elems m))) \<le> fuel \<Longrightarrow>
    walk_from fuel m (Some (i, j)) =
      Some (map key (drop j (elems m ! i) @ concat (drop (Suc i) (elems m))))"
proof (induction fuel arbitrary: i j)
  case 0
  then show ?case by simp
next
  case (Suc fuel)
  let ?xs = "elems m ! i"
  have dj: "drop j ?xs = ?xs ! j # drop (Suc j) ?xs"
    using Suc.prems(2) by (simp add: Cons_nth_drop_Suc)
  have ka: "key_at m (i, j) = key (?xs ! j)" by (simp add: key_at_def)
  show ?case
  proof (cases "Suc j < length ?xs")
    case True
    then have nx: "map_next m (i, j) = Some (i, Suc j)" by (simp add: map_next_def)
    have "length (drop (Suc j) ?xs) + length (concat (drop (Suc i) (elems m))) \<le> fuel"
      using Suc.prems(3) dj by simp
    from Suc.IH [OF Suc.prems(1) True this] show ?thesis
      by (simp add: nx ka dj)
  next
    case False
    with Suc.prems(2) have last: "drop (Suc j) ?xs = []" by simp
    have "?xs ! j \<in> set ?xs" using Suc.prems(2) by simp
    with invar_bucket [OF assms Suc.prems(1)] have "slot (capacity m) (key (?xs ! j)) = i"
      by (simp add: bucket_ok_def)
    with False have nx: "map_next m (i, j) = scan_from m (Suc i)"
      by (simp add: map_next_def ka)
    have le: "Suc i \<le> length (elems m)" using Suc.prems(1) by simp
    note sc = scan_from_spec [OF assms le]
    show ?thesis
    proof (cases "scan_from m (Suc i)")
      case None
      with sc show ?thesis by (simp add: nx ka dj last)
    next
      case (Some c)
      obtain i' j' where c: "c = (i', j')" by (cases c)
      from sc Some c have j': "j' = 0" and i': "i' < length (elems m)"
        and ne: "elems m ! i' \<noteq> []"
        and cc: "concat (drop (Suc i) (elems m)) = elems m ! i' @ concat (drop (Suc i') (elems m))"
        by simp_all
      from ne have 0: "0 < length (elems m ! i')" by simp
      have "length (drop 0 (elems m ! i')) + length (concat (drop (Suc i') (elems m))) \<le> fuel"
        using Suc.prems(3) dj cc by simp
      from Suc.IH [OF i' 0 this] show ?thesis
        by (simp add: nx Some c j' ka dj last cc)
    qed
  qed
qed

lemma walk_all:
  assumes "invar m" "length (cells m) \<le> fuel"
  shows "walk fuel m = Some (map key (cells m))"
proof -
  have le: "0 \<le> length (elems m)" by simp
  note sc = scan_from_spec [OF assms(1) le]
  show ?thesis
  proof (cases "scan_from m 0")
    case None
    with sc show ?thesis by (simp add: walk_def map_first_def cells_def)
  next
    case (Some c)
    obtain i j where c: "c = (i, j)" by (cases c)
    from sc Some c have j: "j = 0" and i: "i < length (elems m)" and ne: "elems m ! i \<noteq> []"
      and cc: "concat (elems m) = elems m ! i @ concat (drop (Suc i) (elems m))"
      by simp_all
    from ne have 0: "0 < length (elems m ! i)" by simp
    have "length (drop 0 (elems m ! i)) + length (concat (drop (Suc i) (elems m))) \<le> fuel"
      using assms(2) cc by (simp add: cells_def)
    from walk_from_cursor [OF assms(1) i 0 this] show ?thesis
      by (simp add: walk_def map_first_def Some c j cells_def cc)
  qed
qed

subsection \<open>Further consequences\<close>

lemma get_absent: "\<not> map_contains m k \<Longrightarrow> map_get m k = Inl KeyNotFound"
  by (simp add: get_Inl)

lemma get_Inr_contains: "map_get m k = Inr v \<Longrightarrow> map_contains m k"
  using get_absent [of m k] by (cases "map_contains m k") simp_all

lemma contains_get: "map_contains m k \<Longrightarrow> \<exists>v. map_get m k = Inr v"
  by (cases "map_get m k") (simp_all add: get_Inl)

lemma set_Inl:
  assumes "map_set m k v = Inl e"
  shows "e = IntOverflow" and "\<not> map_contains m k" and "size_m m = capacity m"
    and "INT_MAX < 2 * capacity m"
proof -
  show c: "\<not> map_contains m k"
  proof
    assume "map_contains m k"
    from set_present [OF this, of v] assms show False by auto
  qed
  then have n: "chain_set (elems m ! slot (capacity m) k) k v = None"
    by (simp add: map_contains_def chain_set_None)
  with assms have x: "extend_if_necessary m = Inl e"
    by (cases "extend_if_necessary m") (simp_all add: map_set_def Let_def)
  then show "size_m m = capacity m"
    by (cases "size_m m = capacity m") (simp_all add: extend_if_necessary_def)
  with x show "INT_MAX < 2 * capacity m" "e = IntOverflow"
    by (simp_all add: extend_if_necessary_def Let_def split: if_splits)
qed

lemma get_cong_cells:
  assumes "invar m" "invar m'"
    "\<forall>c. (c \<in> set (cells m') \<and> key c = cstr k) = (c \<in> set (cells m) \<and> key c = cstr k)"
  shows "map_get m' k = map_get m k" and "map_contains m' k = map_contains m k"
proof -
  have g: "map_get m' k = Inr v \<longleftrightarrow> map_get m k = Inr v" for v
    unfolding get_iff [OF assms(1)] get_iff [OF assms(2)] using assms(3) by blast
  have c: "map_contains m' k \<longleftrightarrow> map_contains m k"
    unfolding contains_iff [OF assms(1)] contains_iff [OF assms(2)] image_iff
    using assms(3) by metis
  show "map_contains m' k = map_contains m k" by (rule c)
  show "map_get m' k = map_get m k"
  proof (cases "map_get m k")
    case (Inr v)
    with g show ?thesis by simp
  next
    case (Inl e)
    then have "\<not> map_contains m k" using get_Inl by blast
    with c have "map_get m' k = Inl KeyNotFound" "map_get m k = Inl KeyNotFound"
      by (simp_all add: get_absent)
    then show ?thesis by simp
  qed
qed

lemma count_key_one:
  "distinct (map f xs) \<Longrightarrow> x \<in> f ` set xs \<Longrightarrow> length (filter (\<lambda>c. f c = x) xs) = 1"
proof (induction xs)
  case Nil
  then show ?case by simp
next
  case (Cons c cs)
  show ?case
  proof (cases "f c = x")
    case True
    with Cons.prems(1) have "\<forall>c' \<in> set cs. f c' \<noteq> x" by (metis distinct.simps(2) image_eqI list.simps(9) set_map)
    then have "filter (\<lambda>c. f c = x) cs = []"
      by (simp add: filter_empty_conv)
    with True show ?thesis by simp
  next
    case False
    with Cons show ?thesis by auto
  qed
qed

lemma extend_returns:
  "size_m m \<noteq> capacity m \<or> capacity m < 2 ^ 30 \<Longrightarrow> \<exists>m1. extend_if_necessary m = Inr m1"
  by (auto simp: extend_if_necessary_def Let_def INT_MAX_def)

lemma extend_lookup:
  assumes "invar m" "extend_if_necessary m = Inr m1"
  shows "map_contains m1 k = map_contains m k" and "map_get m1 k = map_get m k"
proof -
  note e = extend_invar(1,2) [OF assms]
  have "\<forall>c. (c \<in> set (cells m1) \<and> key c = cstr k) = (c \<in> set (cells m) \<and> key c = cstr k)"
    by (simp add: e(2))
  from get_cong_cells [OF assms(1) e(1) this]
  show "map_contains m1 k = map_contains m k" "map_get m1 k = map_get m k" by simp_all
qed

lemma set_absent_lookup:
  assumes "invar m" "\<not> map_contains m k" "map_set m k v = Inr m'" "map_contains m k'"
  shows "map_contains m' k'" and "map_get m' k' = map_get m k'"
proof -
  note a = set_absent_invar(1,2) [OF assms(1,2,3)]
  from assms(2,4) have ne: "cstr k' \<noteq> cstr k"
    by (auto simp: contains_iff [OF assms(1)])
  then have "\<forall>c. (c \<in> set (cells m') \<and> key c = cstr k') = (c \<in> set (cells m) \<and> key c = cstr k')"
    by (auto simp: a(2))
  from get_cong_cells [OF assms(1) a(1) this] assms(4)
  show "map_contains m' k'" "map_get m' k' = map_get m k'" by simp_all
qed




subsection \<open>A full table of capacity \<open>2 ^ 30\<close>\<close>


lemma ones_inj [simp]: "ones a = ones b \<longleftrightarrow> a = b"
  by (metis length_replicate ones_def)





section \<open>The claims\<close>

text \<open>
  C9. For every key string, the hash is the left fold over the bytes before the NUL
  terminator, in order, from the seed \<open>2 ^ 32 - 1\<close>, with the step
  \<open>h := ((h * 31) XOR byte) mod 2 ^ 32\<close>; the empty string hashes to \<open>2 ^ 32 - 1\<close>;
  and two arguments denoting the same string have the same hash.
\<close>

theorem hash_is_spec_fold:
  "unat (hash k) = spec_hash k \<and>
   spec_hash k =
     foldl (\<lambda>h b. ((h * 31) XOR unat b) mod 2 ^ 32) (2 ^ 32 - 1) (takeWhile (\<lambda>c. c \<noteq> 0) k) \<and>
   unat (hash []) = 2 ^ 32 - 1 \<and>
   (strcmp_eq k k' \<longrightarrow> hash k = hash k')"
proof -
  have 1: "unat (hash k) = spec_hash k"
    by (simp add: hash_def spec_hash_def hash_loop_fold unsigned_minus_1_eq_mask
        mask_eq_exp_minus_1)
  have 2: "spec_hash k =
      foldl (\<lambda>h b. ((h * 31) XOR unat b) mod 2 ^ 32) (2 ^ 32 - 1) (takeWhile (\<lambda>c. c \<noteq> 0) k)"
    unfolding spec_hash_def cstr_def
    by (rule arg_cong [where f = "\<lambda>f. foldl f _ _"]) (simp add: fun_eq_iff spec_hash_step_def)
  have 3: "unat (hash []) = 2 ^ 32 - 1"
    by (simp add: hash_def unsigned_minus_1_eq_mask mask_eq_exp_minus_1)
  have 4: "strcmp_eq k k' \<longrightarrow> hash k = hash k'"
    by (metis hash_cstr strcmp_eq_def)
  from 1 2 3 4 show ?thesis by blast
qed

theorem hash_is_spec_fold_witness:
  "strcmp_eq [0x61, 0, 0x62] [0x61] \<and>
   unat (hash [0x61, 0, 0x62]) = spec_hash [0x61, 0, 0x62] \<and>
   hash [0x61, 0, 0x62] = hash [0x61] \<and> hash [0x61] = 0xFFFFFF80"
proof -
  have s: "strcmp_eq [0x61, 0, 0x62] [0x61]" by (simp add: strcmp_eq_def cstr_def)
  have h: "hash [0x61] = 0xFFFFFF80" by (simp add: hash_def)
  from s h hash_is_spec_fold [of "[0x61, 0, 0x62]" "[0x61]"] show ?thesis by simp
qed

text \<open>
  C8. For a key that is not present, \<open>map_get\<close> and \<open>map_remove\<close> return no value:
  both end in the failure branch, and \<open>map_remove\<close> leaves the table as it was.
\<close>

theorem absent_key_fails:
  "\<not> map_contains m k \<Longrightarrow>
   map_get m k = Inl KeyNotFound \<and> map_remove m k = (Inl KeyNotFound, m)"
  by (simp add: get_Inl remove_absent)

theorem absent_key_fails_witness:
  "\<not> map_contains table_ab [0x63] \<and> map_get table_ab [0x63] = Inl KeyNotFound \<and>
   map_remove table_ab [0x63] = (Inl KeyNotFound, table_ab)"
proof -
  have h: "\<not> map_contains table_ab [0x63]" by code_simp
  from h absent_key_fails [OF h] show ?thesis by simp
qed




text \<open>
  C4. For a key present in a well-formed table, \<open>map_remove\<close> returns the value stored
  for the key (the one \<open>map_get\<close> returns before the call); afterwards
  \<open>map_contains\<close> is false for the key and \<open>map_size\<close> is smaller by exactly one.
\<close>

theorem remove_present_key:
  assumes "invar m" "map_contains m k"
  shows "\<exists>v m'. map_remove m k = (Inr v, m') \<and> map_get m k = Inr v \<and>
           \<not> map_contains m' k \<and> map_size m' = map_size m - 1"
proof -
  from assms(2) obtain v m' where r: "map_remove m k = (Inr v, m')"
    using remove_returns_iff [of m k] by blast
  note i = remove_invar [OF assms(1) r]
  from r i(3,4,5) show ?thesis by (simp add: map_size_def)
qed

theorem remove_present_key_witness:
  "invar table_abc \<and> map_contains table_abc [0x62] \<and>
   (\<exists>v m'. map_remove table_abc [0x62] = (Inr v, m') \<and> map_get table_abc [0x62] = Inr v \<and>
      \<not> map_contains m' [0x62] \<and> map_size m' = map_size table_abc - 1) \<and>
   fst (map_remove table_abc [0x62]) = Inr 2 \<and> map_size table_abc = 3"
proof -
  have h: "invar table_abc" by code_simp
  have c: "map_contains table_abc [0x62]" by code_simp
  have v: "fst (map_remove table_abc [0x62]) = Inr 2" by code_simp
  have s: "map_size table_abc = 3" by code_simp
  from h c v s remove_present_key [OF h c] show ?thesis by simp
qed

text \<open>
  C5. For a key present in a well-formed table, \<open>map_set\<close> with \<open>v1\<close> followed by
  \<open>map_set\<close> with \<open>v2\<close> leaves \<open>map_size\<close> as it was and makes \<open>map_get\<close> return
  \<open>v2\<close>; the stored keys stay where they are, chain by chain.
\<close>

theorem overwrite_present_key:
  assumes "invar m" "map_contains m k"
  shows "\<exists>m1 m2. map_set m k v1 = Inr m1 \<and> map_set m1 k v2 = Inr m2 \<and>
           map_size m2 = map_size m \<and> map_get m2 k = Inr v2 \<and>
           map (map key) (elems m2) = map (map key) (elems m)"
proof -
  from set_present [OF assms(2), of v1] obtain m1 where 1: "map_set m k v1 = Inr m1" by blast
  note i1 = set_present_invar [OF assms 1]
  have c1: "map_contains m1 k" by (rule get_Inr_contains [OF i1(5)])
  from set_present [OF c1, of v2] obtain m2 where 2: "map_set m1 k v2 = Inr m2" by blast
  note i2 = set_present_invar [OF i1(1) c1 2]
  from 1 2 i1(3,4) i2(3,4,5) show ?thesis by (simp add: map_size_def)
qed

theorem overwrite_present_key_witness:
  "invar table_ab \<and> map_contains table_ab [0x61] \<and>
   (\<exists>m1 m2. map_set table_ab [0x61] 7 = Inr m1 \<and> map_set m1 [0x61] 9 = Inr m2 \<and>
      map_size m2 = map_size table_ab \<and> map_get m2 [0x61] = Inr 9 \<and>
      map (map key) (elems m2) = map (map key) (elems table_ab))"
proof -
  have h: "invar table_ab" by code_simp
  have c: "map_contains table_ab [0x61]" by code_simp
  from h c overwrite_present_key [OF h c, of 7 9] show ?thesis by simp
qed

text \<open>
  C10. \<open>map_set\<close> on a key that is present never grows the table: it returns with the
  capacity, the size and the keys of every chain unchanged, whatever the size is, also
  when it equals the capacity.
\<close>

theorem set_present_no_growth:
  assumes "map_contains m k"
  shows "\<exists>m'. map_set m k v = Inr m' \<and> capacity m' = capacity m \<and> size_m m' = size_m m \<and>
           map (map key) (elems m') = map (map key) (elems m)"
proof -
  let ?b = "slot (capacity m) k"
  from set_present [OF assms, of v] obtain ch
    where ch: "chain_set (elems m ! ?b) k v = Some ch"
      and s: "map_set m k v = Inr (m\<lparr>elems := (elems m)[?b := ch]\<rparr>)" by blast
  have "map (map key) ((elems m)[?b := ch]) = (map (map key) (elems m))[?b := map key (elems m ! ?b)]"
    by (simp add: map_update chain_set_keys [OF ch])
  also have "\<dots> = map (map key) (elems m)"
  proof (cases "?b < length (elems m)")
    case True
    then show ?thesis by (simp add: list_update_same_conv)
  next
    case False
    then show ?thesis by (simp add: list_update_beyond)
  qed
  finally show ?thesis using s by simp
qed

theorem set_present_no_growth_witness:
  "map_contains table_ab [0x62] \<and> size_m table_ab = capacity table_ab \<and>
   (\<exists>m'. map_set table_ab [0x62] 5 = Inr m' \<and> capacity m' = capacity table_ab \<and>
      size_m m' = size_m table_ab \<and>
      map (map key) (elems m') = map (map key) (elems table_ab))"
proof -
  have c: "map_contains table_ab [0x62]" by code_simp
  have s: "size_m table_ab = capacity table_ab" by code_simp
  from c s set_present_no_growth [OF c, of 5] show ?thesis by simp
qed

text \<open>
  C6. A growth event changes nothing a client can observe about the keys it holds. When
  \<open>size = capacity\<close>, \<open>extend_if_necessary\<close> doubles the capacity, and every key present
  before is present afterwards with the same value handle; the same holds across the
  whole insertion of a new key that triggered the growth. Growth returns whenever the
  doubled capacity fits an \<^verbatim>\<open>int\<close>.
\<close>

theorem growth_transparent:
  assumes "invar m" "size_m m = capacity m"
  shows "(capacity m < 2 ^ 30 \<longrightarrow> (\<exists>m1. extend_if_necessary m = Inr m1)) \<and>
    (\<forall>m1. extend_if_necessary m = Inr m1 \<longrightarrow>
       capacity m1 = 2 * capacity m \<and>
       (\<forall>k. map_contains m k \<longrightarrow> map_contains m1 k \<and> map_get m1 k = map_get m k)) \<and>
    (\<forall>k v m'. \<not> map_contains m k \<and> map_set m k v = Inr m' \<longrightarrow>
       capacity m' = 2 * capacity m \<and>
       (\<forall>k'. map_contains m k' \<longrightarrow> map_contains m' k' \<and> map_get m' k' = map_get m k'))"
proof (intro conjI allI impI)
  assume "capacity m < 2 ^ 30"
  then show "\<exists>m1. extend_if_necessary m = Inr m1" by (simp add: extend_returns)
next
  fix m1 assume "extend_if_necessary m = Inr m1"
  from extend_invar(5) [OF assms(1) this] assms(2) show "capacity m1 = 2 * capacity m" by simp
next
  fix m1 k assume "extend_if_necessary m = Inr m1" "map_contains m k"
  with extend_lookup [OF assms(1), of m1 k] show "map_contains m1 k" by simp
next
  fix m1 k assume "extend_if_necessary m = Inr m1" "map_contains m k"
  with extend_lookup [OF assms(1), of m1 k] show "map_get m1 k = map_get m k" by simp
next
  fix k v m' assume "\<not> map_contains m k \<and> map_set m k v = Inr m'"
  then have a: "\<not> map_contains m k" "map_set m k v = Inr m'" by simp_all
  from set_absent_invar(4) [OF assms(1) a] assms(2) show "capacity m' = 2 * capacity m" by simp
next
  fix k v m' k' assume "\<not> map_contains m k \<and> map_set m k v = Inr m'" "map_contains m k'"
  then show "map_contains m' k'" using set_absent_lookup(1) [OF assms(1)] by blast
next
  fix k v m' k' assume "\<not> map_contains m k \<and> map_set m k v = Inr m'" "map_contains m k'"
  then show "map_get m' k' = map_get m k'" using set_absent_lookup(2) [OF assms(1)] by blast
qed

theorem growth_transparent_witness:
  "invar table_ab \<and> size_m table_ab = capacity table_ab \<and> map_contains table_ab [0x62] \<and>
   (\<exists>m1. extend_if_necessary table_ab = Inr m1 \<and> capacity m1 = 4 \<and>
      map_contains m1 [0x62] \<and> map_get m1 [0x62] = map_get table_ab [0x62]) \<and>
   map_get table_ab [0x62] = Inr 2"
proof -
  have h: "invar table_ab" by code_simp
  have s: "size_m table_ab = capacity table_ab" by code_simp
  have c: "map_contains table_ab [0x62]" by code_simp
  have g: "map_get table_ab [0x62] = Inr 2" by code_simp
  have 2: "capacity table_ab = 2" by code_simp
  from growth_transparent [OF h s] 2 obtain m1 where x: "extend_if_necessary table_ab = Inr m1"
    by auto
  with growth_transparent [OF h s] c 2
  have "capacity m1 = 4 \<and> map_contains m1 [0x62] \<and> map_get m1 [0x62] = map_get table_ab [0x62]"
    by simp
  with h s c g x show ?thesis by blast
qed

text \<open>
  C7. Every table reachable from \<open>map_create\<close> by calls of \<open>map_set\<close> and \<open>map_remove\<close>
  that return satisfies: \<open>size \<le> capacity\<close>; the capacity is a power of two and the array
  has that many buckets; every key present is stored in exactly one cell over all buckets;
  every cell lies in the bucket \<open>hash(key) mod capacity\<close>. The capacity starts at 1, and a
  call either keeps it or doubles it (\<open>map_remove\<close> always keeps it).
\<close>

theorem reachable_invariants:
  fixes m :: "'v map_t"
  assumes "reachable m"
  shows "size_m m \<le> capacity m \<and> (\<exists>n. capacity m = 2 ^ n) \<and>
    length (elems m) = nat (capacity m) \<and>
    (\<forall>k. map_contains m k \<longrightarrow> length (filter (\<lambda>c. key c = cstr k) (concat (elems m))) = 1) \<and>
    (\<forall>i < length (elems m). \<forall>c \<in> set (elems m ! i). i = unat (hash (key c)) mod nat (capacity m)) \<and>
    capacity (map_create :: 'v map_t) = 1 \<and>
    (\<forall>k v m'. map_set m k v = Inr m' \<longrightarrow> capacity m' = capacity m \<or> capacity m' = 2 * capacity m) \<and>
    (\<forall>k v m'. map_remove m k = (Inr v, m') \<longrightarrow> capacity m' = capacity m)"
proof -
  have i: "invar m" by (rule reachable_invar [OF assms])
  have pos: "0 < capacity m" by (rule invar_cap_pos [OF i])
  have lt: "capacity m < 2 ^ 32" using invar_cap_le [OF i] by simp
  have 1: "size_m m \<le> capacity m" using i by (simp add: invar_def)
  have 2: "\<exists>n. capacity m = 2 ^ n" using invar_cap_pow [OF i] by blast
  have 3: "length (elems m) = nat (capacity m)" by (rule invar_length [OF i])
  have 4: "length (filter (\<lambda>c. key c = cstr k) (concat (elems m))) = 1" if "map_contains m k" for k
  proof -
    from that have "cstr k \<in> key ` set (cells m)" by (simp only: contains_iff [OF i])
    from count_key_one [OF invar_distinct_keys [OF i] this] show ?thesis by (simp only: cells_def)
  qed
  have 5: "i = unat (hash (key c)) mod nat (capacity m)"
    if "i < length (elems m)" "c \<in> set (elems m ! i)" for i c
  proof -
    from invar_bucket [OF i that(1)] that(2) have "slot (capacity m) (key c) = i"
      by (simp add: bucket_ok_def)
    then show ?thesis by (simp only: slot_nat_mod [OF pos lt])
  qed
  have 6: "capacity (map_create :: 'v map_t) = 1" by (simp add: map_create_def)
  have 7: "capacity m' = capacity m \<or> capacity m' = 2 * capacity m"
    if "map_set m k v = Inr m'" for k v m'
  proof (cases "map_contains m k")
    case True
    from set_present_invar(2) [OF i True that] show ?thesis by simp
  next
    case False
    from set_absent_invar(4) [OF i False that] show ?thesis by (simp split: if_splits)
  qed
  have 8: "capacity m' = capacity m" if "map_remove m k = (Inr v, m')" for k v m'
    by (rule remove_invar(2) [OF i that])
  from 1 2 3 4 5 6 7 8 show ?thesis by blast
qed

theorem reachable_invariants_witness:
  "reachable table_abc \<and> size_m table_abc \<le> capacity table_abc \<and>
   (\<exists>n. capacity table_abc = 2 ^ n) \<and> map_contains table_abc [0x63] \<and>
   length (filter (\<lambda>c. key c = cstr [0x63]) (concat (elems table_abc))) = 1 \<and>
   \<lparr>key = [0x63], val = 3\<rparr> \<in> set (elems table_abc ! 2) \<and>
   2 = unat (hash [0x63]) mod nat (capacity table_abc)"
proof -
  have a: "map_set (map_create :: nat map_t) [0x61] 1 =
      Inr \<lparr>elems = [[\<lparr>key = [0x61], val = 1\<rparr>]], capacity = 1, size_m = 1\<rparr>"
    by code_simp
  have b: "map_set \<lparr>elems = [[\<lparr>key = [0x61], val = 1\<rparr>]], capacity = 1, size_m = 1\<rparr> [0x62] 2 =
      Inr table_ab"
    by code_simp
  have c: "map_set table_ab [0x63] 3 = Inr table_abc"
    by code_simp
  have r: "reachable table_abc"
    by (rule reachable.set [OF reachable.set [OF reachable.set [OF reachable.create a] b] c])
  have p: "map_contains table_abc [0x63]" by code_simp
  have l: "(2::nat) < length (elems table_abc)" by code_simp
  have e: "\<lparr>key = [0x63], val = 3\<rparr> \<in> set (elems table_abc ! 2)" by code_simp
  from l e reachable_invariants [OF r]
  have "2 = unat (hash (key \<lparr>key = [0x63], val = (3::nat)\<rparr>)) mod nat (capacity table_abc)"
    by blast
  then have "2 = unat (hash [0x63]) mod nat (capacity table_abc)" by simp
  with r p e reachable_invariants [OF r] show ?thesis by blast
qed




text \<open>
  C3. On a well-formed table, the iteration from \<open>map_first\<close> through \<open>map_next\<close> reaches
  \<^verbatim>\<open>NULL\<close> (with fuel for at least \<open>size\<close> steps), and the keys it visits are the keys
  of bucket 0 from the head of its chain on, then those of bucket 1, and so on by
  increasing index. The keys visited are pairwise different, there are \<open>size\<close> of them,
  and they are exactly the keys for which \<open>map_contains\<close> holds.
\<close>

theorem walk_visits_each_key_once:
  assumes "invar m" "nat (size_m m) \<le> fuel"
  shows "walk fuel m = Some (concat (map (map key) (elems m))) \<and>
    distinct (concat (map (map key) (elems m))) \<and>
    int (length (concat (map (map key) (elems m)))) = map_size m \<and>
    (\<forall>k. map_contains m k \<longleftrightarrow> cstr k \<in> set (concat (map (map key) (elems m))))"
proof -
  have e: "concat (map (map key) (elems m)) = map key (cells m)"
    by (simp add: cells_def map_concat)
  have s: "size_m m = int (length (cells m))" using assms(1) by (simp add: invar_def cells_def)
  with assms(2) have "length (cells m) \<le> fuel" by simp
  from walk_all [OF assms(1) this] have 1: "walk fuel m = Some (map key (cells m))" .
  have 2: "distinct (map key (cells m))" by (rule invar_distinct_keys [OF assms(1)])
  have 3: "int (length (map key (cells m))) = map_size m" using s by (simp add: map_size_def)
  have 4: "\<forall>k. map_contains m k \<longleftrightarrow> cstr k \<in> set (map key (cells m))"
    by (simp add: contains_iff [OF assms(1)])
  from 1 2 3 4 show ?thesis unfolding e by blast
qed

theorem walk_visits_each_key_once_witness:
  "invar table_abc \<and> nat (size_m table_abc) \<le> 3 \<and>
   walk 3 table_abc = Some [[0x61], [0x63], [0x62]] \<and>
   map_first table_abc = Some (0, 0) \<and> map_next table_abc (0, 0) = Some (2, 0) \<and>
   map_next table_abc (2, 0) = Some (3, 0) \<and> map_next table_abc (3, 0) = None"
proof -
  have h: "invar table_abc" by code_simp
  have f: "nat (size_m table_abc) \<le> 3" by code_simp
  have k: "concat (map (map key) (elems table_abc)) = [[0x61], [0x63], [0x62]]" by code_simp
  have n: "map_first table_abc = Some (0, 0)" "map_next table_abc (0, 0) = Some (2, 0)"
    "map_next table_abc (2, 0) = Some (3, 0)" "map_next table_abc (3, 0) = None"
    by code_simp+
  from h f k n walk_visits_each_key_once [OF h f] show ?thesis by simp
qed

end
